theory Spec2Isabelle
  imports Main "HOL-Library.Word"
begin

section \<open>Data model\<close>

text \<open>
  A \<^verbatim>\<open>Buffer\<close> is a byte string; \<^verbatim>\<open>a.equals(b)\<close> is bytewise equality, which
  is HOL equality on byte lists. A JavaScript \<^verbatim>\<open>number\<close> holding a block height is
  modelled as an unbounded integer.
\<close>

type_synonym Buffer = "8 word list"

text \<open>
  The fields of a block header that \<^verbatim>\<open>chainProcessor.ts\<close> reads. The processor
  record below has fields of the same names, so the header's selectors are written
  qualified (\<open>LocalBlockHeader.hash\<close>) after that declaration.
\<close>

record LocalBlockHeader =
  hash :: Buffer
  previousBlockHash :: Buffer
  sequence :: int

text \<open>
  What a subscriber of \<^verbatim>\<open>onAdd\<close> or \<^verbatim>\<open>onRemove\<close> is called with. The events of a
  call are the emissions \<^verbatim>\<open>onAdd.emitAsync(header)\<close> and \<^verbatim>\<open>onRemove.emitAsync(header)\<close>
  in the order in which the call makes them; the handlers are taken to complete, and to
  leave the processor alone.
\<close>

datatype chain_event = Add LocalBlockHeader | Remove LocalBlockHeader

text \<open>
  The \<^verbatim>\<open>Blockchain\<close> class is imported by \<^verbatim>\<open>chainProcessor.ts\<close> as a type only.
  The processor uses two properties and four methods of it; they are taken as the
  fields of a record, so that every statement about \<^verbatim>\<open>update\<close> that does not
  depend on what a particular store answers holds for all stores.
  \<^verbatim>\<open>getHeader\<close> answers \<^verbatim>\<open>null\<close> as \<open>None\<close>; \<^verbatim>\<open>findFork\<close> answers the pair
  \<^verbatim>\<open>{ fork, isLinear }\<close> with a \<^verbatim>\<open>null\<close> fork as \<open>None\<close>; the two iterators answer
  the finite sequence of headers they yield (\<^verbatim>\<open>tx\<close> is \<^verbatim>\<open>undefined\<close> and
  \<^verbatim>\<open>reachable\<close> is \<^verbatim>\<open>false\<close> at both call sites).
\<close>

record Blockchain =
  genesis :: LocalBlockHeader
  head :: LocalBlockHeader
  getHeader :: "Buffer \<Rightarrow> LocalBlockHeader option"
  findFork :: "LocalBlockHeader \<Rightarrow> LocalBlockHeader \<Rightarrow> LocalBlockHeader option \<times> bool"
  iterateFrom :: "LocalBlockHeader \<Rightarrow> LocalBlockHeader \<Rightarrow> LocalBlockHeader list"
  iterateTo :: "LocalBlockHeader \<Rightarrow> LocalBlockHeader \<Rightarrow> LocalBlockHeader list"

text \<open>
  The logger and the event emitter are imported classes too. A logger is its tag and the
  lines written through it; an emitter is the list of its registered handlers, by name.
\<close>

datatype LogLevel = Debug | Info | Warn | Error

record Logger =
  tag :: string
  entries :: "(LogLevel \<times> string) list"

definition createRootLogger :: Logger where
  "createRootLogger = \<lparr>tag = [], entries = []\<rparr>"

definition withTag :: "Logger \<Rightarrow> string \<Rightarrow> Logger" where
  "withTag l t = l\<lparr>tag := t\<rparr>"

record Event =
  handlers :: "string list"

definition new_Event :: Event where
  "new_Event = \<lparr>handlers = []\<rparr>"

record ChainProcessor =
  chain :: Blockchain
  hash :: "Buffer option"
  sequence :: "int option"
  logger :: Logger
  onAdd :: Event
  onRemove :: Event

section \<open>The constructor\<close>

record options =
  opt_logger :: "Logger option"
  opt_chain :: Blockchain
  opt_head :: "Buffer option"

text \<open>
  Lines 39 to 43. \<^verbatim>\<open>sequence\<close> keeps its field initialiser \<^verbatim>\<open>null\<close>: the constructor
  assigns \<^verbatim>\<open>chain\<close>, \<^verbatim>\<open>logger\<close> and \<^verbatim>\<open>hash\<close> only.
\<close>

definition ChainProcessor_new :: "options \<Rightarrow> ChainProcessor" where
  "ChainProcessor_new opts =
     \<lparr>chain = opt_chain opts,
      hash = opt_head opts,
      sequence = None,
      logger = withTag (case opt_logger opts of None \<Rightarrow> createRootLogger | Some l \<Rightarrow> l)
                 ''chainprocessor'',
      onAdd = new_Event,
      onRemove = new_Event\<rparr>"

section \<open>The reconciliation pass\<close>

text \<open>
  \<^verbatim>\<open>signal\<close> is optional. An abort signal can be raised at any suspension point of the
  call, so it is the sequence of values that successive reads of \<^verbatim>\<open>signal.aborted\<close>
  return during the call, indexed from 0. \<^verbatim>\<open>signal?.aborted\<close> of an absent signal
  is falsy.
\<close>

type_synonym AbortSignal = "nat \<Rightarrow> bool"

fun aborted :: "AbortSignal option \<Rightarrow> nat \<Rightarrow> bool" where
  "aborted None k = False"
| "aborted (Some s) k = s k"

datatype error = AssertionError string Buffer

text \<open>
  The expression \<^verbatim>\<open>!oldHash || !this.hash.equals(oldHash)\<close> of lines 86, 103 and 115.
  \<^verbatim>\<open>this.hash\<close> is not \<^verbatim>\<open>null\<close> where it is evaluated.
\<close>

definition hashChanged :: "Buffer option \<Rightarrow> ChainProcessor \<Rightarrow> bool" where
  "hashChanged oldHash p = (case oldHash of None \<Rightarrow> True | Some h \<Rightarrow> hash p \<noteq> Some h)"

text \<open>
  The loop of lines 84 to 96 over the headers that \<^verbatim>\<open>iterateFrom\<close> yields. The state is
  the processor, the events emitted so far in this call and the number of reads of the
  signal so far. The first component of the result is \<open>Some b\<close> when the loop left the
  method with \<^verbatim>\<open>return { hashChanged: b }\<close>, and \<open>None\<close> when the iterator was exhausted.
\<close>

fun remove_loop ::
  "AbortSignal option \<Rightarrow> Buffer option \<Rightarrow> LocalBlockHeader \<Rightarrow> LocalBlockHeader list \<Rightarrow>
   ChainProcessor \<Rightarrow> chain_event list \<Rightarrow> nat \<Rightarrow>
   bool option \<times> ChainProcessor \<times> chain_event list \<times> nat" where
  "remove_loop signal oldHash fork [] p es k = (None, p, es, k)"
| "remove_loop signal oldHash fork (remove # iter) p es k =
     (if aborted signal k then (Some (hashChanged oldHash p), p, es, Suc k)
      else if LocalBlockHeader.hash remove = LocalBlockHeader.hash fork
        then remove_loop signal oldHash fork iter p es (Suc k)
      else remove_loop signal oldHash fork iter
             (p\<lparr>hash := Some (previousBlockHash remove),
                sequence := Some (LocalBlockHeader.sequence remove - 1)\<rparr>)
             (es @ [Remove remove]) (Suc k))"

text \<open>The loop of lines 101 to 113 over the headers that \<^verbatim>\<open>iterateTo\<close> yields.\<close>

fun add_loop ::
  "AbortSignal option \<Rightarrow> Buffer option \<Rightarrow> LocalBlockHeader \<Rightarrow> LocalBlockHeader list \<Rightarrow>
   ChainProcessor \<Rightarrow> chain_event list \<Rightarrow> nat \<Rightarrow>
   bool option \<times> ChainProcessor \<times> chain_event list \<times> nat" where
  "add_loop signal oldHash fork [] p es k = (None, p, es, k)"
| "add_loop signal oldHash fork (add # iter) p es k =
     (if aborted signal k then (Some (hashChanged oldHash p), p, es, Suc k)
      else if LocalBlockHeader.hash add = LocalBlockHeader.hash fork
        then add_loop signal oldHash fork iter p es (Suc k)
      else add_loop signal oldHash fork iter
             (p\<lparr>hash := Some (LocalBlockHeader.hash add),
                sequence := Some (LocalBlockHeader.sequence add)\<rparr>)
             (es @ [Add add]) (Suc k))"

text \<open>
  Lines 62 to 115, entered with \<open>h\<close> the value of \<^verbatim>\<open>this.hash\<close>, which is not
  \<^verbatim>\<open>null\<close> from line 61 on, and \<open>es\<close> the events emitted before. The result is the
  outcome of the call (the thrown error, or the returned \<^verbatim>\<open>hashChanged\<close>), the processor
  as the call leaves it and the events emitted during the call, in order.
\<close>

definition reconcile ::
  "AbortSignal option \<Rightarrow> Buffer option \<Rightarrow> Buffer \<Rightarrow> ChainProcessor \<Rightarrow> chain_event list \<Rightarrow>
   (error + bool) \<times> ChainProcessor \<times> chain_event list" where
  "reconcile signal oldHash h p es =
     (let chainHead = head (chain p) in
      if LocalBlockHeader.hash chainHead = h then (Inr False, p, es)
      else
        case getHeader (chain p) h of
          None \<Rightarrow> (Inl (AssertionError ''Chain processor head not found in chain'' h), p, es)
        | Some head' \<Rightarrow>
            (case findFork (chain p) head' chainHead of
               (None, isLinear) \<Rightarrow> (Inr False, p, es)
             | (Some fork, isLinear) \<Rightarrow>
                 (case (if \<not> isLinear
                        then remove_loop signal oldHash fork
                               (iterateFrom (chain p) head' fork) p es 0
                        else (None, p, es, 0)) of
                    (Some b, p1, es1, k1) \<Rightarrow> (Inr b, p1, es1)
                  | (None, p1, es1, k1) \<Rightarrow>
                      (case add_loop signal oldHash fork
                              (iterateTo (chain p) fork chainHead) p1 es1 k1 of
                         (Some b, p2, es2, k2) \<Rightarrow> (Inr b, p2, es2)
                       | (None, p2, es2, k2) \<Rightarrow> (Inr (hashChanged oldHash p2), p2, es2)))))"

text \<open>
  \<^verbatim>\<open>update\<close>, lines 53 to 116. An unseeded processor first emits \<^verbatim>\<open>onAdd(genesis)\<close> and
  moves its cursor to the genesis header (lines 56 to 60); \<^verbatim>\<open>oldHash\<close> is the hash on
  entry in both cases.
\<close>

definition update ::
  "ChainProcessor \<Rightarrow> AbortSignal option \<Rightarrow> (error + bool) \<times> ChainProcessor \<times> chain_event list" where
  "update p signal =
     (case hash p of
        None \<Rightarrow>
          reconcile signal None (LocalBlockHeader.hash (genesis (chain p)))
            (p\<lparr>hash := Some (LocalBlockHeader.hash (genesis (chain p))),
               sequence := Some (LocalBlockHeader.sequence (genesis (chain p)))\<rparr>)
            [Add (genesis (chain p))]
      | Some h \<Rightarrow> reconcile signal (Some h) h p [])"

definition outcome :: "(error + bool) \<times> ChainProcessor \<times> chain_event list \<Rightarrow> error + bool" where
  "outcome r = fst r"

definition processor :: "(error + bool) \<times> ChainProcessor \<times> chain_event list \<Rightarrow> ChainProcessor" where
  "processor r = fst (snd r)"

definition emitted :: "(error + bool) \<times> ChainProcessor \<times> chain_event list \<Rightarrow> chain_event list" where
  "emitted r = snd (snd r)"

section \<open>A chain store\<close>

text \<open>
  Modelled from the spec: the \<^verbatim>\<open>Blockchain\<close> class (\<^verbatim>\<open>blockchain.ts\<close>) is not among
  the sources, so the store is modelled from sections 4.A and 4.B of the specification.
  A store is the headers it holds, its genesis header and its current head.
\<close>

record Store =
  blocks :: "LocalBlockHeader list"
  store_genesis :: LocalBlockHeader
  store_head :: LocalBlockHeader

text \<open>Modelled from the spec: \<^verbatim>\<open>get_header(hash)\<close>, lookup by hash, absent as \<open>None\<close>.\<close>

definition store_getHeader :: "Store \<Rightarrow> Buffer \<Rightarrow> LocalBlockHeader option" where
  "store_getHeader s h = find (\<lambda>b. LocalBlockHeader.hash b = h) (blocks s)"

text \<open>
  Modelled from the spec: walking backward along parent pointers. The genesis header has
  sequence 1 and a header's sequence is its height, so the walk from a header of
  sequence \<open>n\<close> visits at most \<open>n\<close> headers; it ends early at a header whose parent the
  store does not hold.
\<close>

fun walk_back :: "nat \<Rightarrow> Store \<Rightarrow> LocalBlockHeader \<Rightarrow> LocalBlockHeader list" where
  "walk_back 0 s b = []"
| "walk_back (Suc n) s b =
     b # (case store_getHeader s (previousBlockHash b) of
            None \<Rightarrow> []
          | Some parent \<Rightarrow> walk_back n s parent)"

definition ancestors :: "Store \<Rightarrow> LocalBlockHeader \<Rightarrow> LocalBlockHeader list" where
  "ancestors s b = walk_back (nat (LocalBlockHeader.sequence b)) s b"

text \<open>The prefix of a sequence up to and including its first element that satisfies \<open>P\<close>.\<close>

fun take_through :: "('a \<Rightarrow> bool) \<Rightarrow> 'a list \<Rightarrow> 'a list" where
  "take_through P [] = []"
| "take_through P (x # xs) = (if P x then [x] else x # take_through P xs)"

text \<open>
  Modelled from the spec: \<^verbatim>\<open>iterate_from(start, stop)\<close> walks backward along parent
  pointers from \<open>start\<close> toward \<open>stop\<close>, yields \<open>start\<close> first and \<open>stop\<close> last; \<open>stop\<close> is
  yielded although \<^verbatim>\<open>inclusive\<close> is false.
\<close>

definition store_iterateFrom ::
  "Store \<Rightarrow> LocalBlockHeader \<Rightarrow> LocalBlockHeader \<Rightarrow> LocalBlockHeader list" where
  "store_iterateFrom s start stop =
     take_through (\<lambda>b. LocalBlockHeader.hash b = LocalBlockHeader.hash stop) (ancestors s start)"

text \<open>
  Modelled from the spec: the canonical chain is the path from the genesis header to the
  head, and \<^verbatim>\<open>iterate_to(start, stop)\<close> walks forward along it from \<open>start\<close> to \<open>stop\<close>,
  yielding \<open>start\<close> first and \<open>stop\<close> last.
\<close>

definition canonical :: "Store \<Rightarrow> LocalBlockHeader list" where
  "canonical s = rev (ancestors s (store_head s))"

definition store_iterateTo ::
  "Store \<Rightarrow> LocalBlockHeader \<Rightarrow> LocalBlockHeader \<Rightarrow> LocalBlockHeader list" where
  "store_iterateTo s start stop =
     take_through (\<lambda>b. LocalBlockHeader.hash b = LocalBlockHeader.hash stop)
       (dropWhile (\<lambda>b. LocalBlockHeader.hash b \<noteq> LocalBlockHeader.hash start) (canonical s))"

text \<open>
  Modelled from the spec: \<^verbatim>\<open>find_fork(a, b)\<close>. The fork is the lowest header that is an
  ancestor of both, the first ancestor of \<open>a\<close>, walking backward, that is an ancestor of
  \<open>b\<close> too; there is none only when the two belong to disjoint trees. \<^verbatim>\<open>is_linear\<close> is
  true iff the fork is \<open>a\<close> or \<open>b\<close>.
\<close>

definition store_findFork ::
  "Store \<Rightarrow> LocalBlockHeader \<Rightarrow> LocalBlockHeader \<Rightarrow> LocalBlockHeader option \<times> bool" where
  "store_findFork s a b =
     (case find (\<lambda>x. LocalBlockHeader.hash x \<in> set (map LocalBlockHeader.hash (ancestors s b)))
             (ancestors s a) of
        None \<Rightarrow> (None, False)
      | Some fork \<Rightarrow>
          (Some fork,
           LocalBlockHeader.hash fork = LocalBlockHeader.hash a \<or>
           LocalBlockHeader.hash fork = LocalBlockHeader.hash b))"

text \<open>The store seen through the interface that the processor uses.\<close>

definition store_chain :: "Store \<Rightarrow> Blockchain" where
  "store_chain s =
     \<lparr>genesis = store_genesis s,
      head = store_head s,
      getHeader = store_getHeader s,
      findFork = store_findFork s,
      iterateFrom = store_iterateFrom s,
      iterateTo = store_iterateTo s\<rparr>"

text \<open>A header from its three fields.\<close>

definition header :: "Buffer \<Rightarrow> Buffer \<Rightarrow> int \<Rightarrow> LocalBlockHeader" where
  "header h prev n = \<lparr>LocalBlockHeader.hash = h, previousBlockHash = prev, sequence = n\<rparr>"

section \<open>Scenarios\<close>

text \<open>
  The headers of the scenarios of section 8 of the specification: a genesis header, a
  branch \<open>A1, A2, A3\<close> and a branch \<open>B1, B2, B3, B4\<close> above it, and a header \<open>C1\<close> whose
  parent no store holds.
\<close>

definition hG :: LocalBlockHeader where "hG = header [1] [0] 1"
definition hA1 :: LocalBlockHeader where "hA1 = header [2] [1] 2"
definition hA2 :: LocalBlockHeader where "hA2 = header [3] [2] 3"
definition hA3 :: LocalBlockHeader where "hA3 = header [4] [3] 4"
definition hB1 :: LocalBlockHeader where "hB1 = header [5] [1] 2"
definition hB2 :: LocalBlockHeader where "hB2 = header [6] [5] 3"
definition hB3 :: LocalBlockHeader where "hB3 = header [7] [6] 4"
definition hB4 :: LocalBlockHeader where "hB4 = header [8] [7] 5"
definition hC1 :: LocalBlockHeader where "hC1 = header [9] [10] 2"

text \<open>A processor constructed over a store, with the default logger.\<close>

definition new_processor :: "Store \<Rightarrow> Buffer option \<Rightarrow> ChainProcessor" where
  "new_processor s h =
     ChainProcessor_new \<lparr>opt_logger = None, opt_chain = store_chain s, opt_head = h\<rparr>"

text \<open>Scenario 1: the store holds the genesis header only.\<close>

definition cold_store :: Store where
  "cold_store = \<lparr>blocks = [hG], store_genesis = hG, store_head = hG\<rparr>"

text \<open>Scenario: a store that has lost its genesis header.\<close>

definition lost_store :: Store where
  "lost_store = \<lparr>blocks = [hA1], store_genesis = hG, store_head = hA1\<rparr>"

text \<open>Scenario 6: the head \<open>C1\<close> belongs to a tree that does not contain the genesis header.\<close>

definition disjoint_store :: Store where
  "disjoint_store = \<lparr>blocks = [hG, hA1, hC1], store_genesis = hG, store_head = hC1\<rparr>"


section \<open>Notions used in the statements\<close>

text \<open>
  The value of \<^verbatim>\<open>this.hash\<close> at line 62, after the bootstrap of lines 56 to 60, and the
  events that the bootstrap emits.
\<close>

definition entry_hash :: "ChainProcessor \<Rightarrow> Buffer" where
  "entry_hash p =
     (case hash p of None \<Rightarrow> LocalBlockHeader.hash (genesis (chain p)) | Some h \<Rightarrow> h)"

definition bootstrap :: "ChainProcessor \<Rightarrow> chain_event list" where
  "bootstrap p = (case hash p of None \<Rightarrow> [Add (genesis (chain p))] | Some h \<Rightarrow> [])"


section \<open>Well-formed stores\<close>

text \<open>
  Modelled from the spec: the data model of section 3. Hashes identify headers, the
  genesis header has sequence 1 and every other header extends a header of the store,
  with the next sequence. The head is a header of the store.
\<close>

definition wf_store :: "Store \<Rightarrow> bool" where
  "wf_store s \<longleftrightarrow>
     distinct (map LocalBlockHeader.hash (blocks s)) \<and>
     store_genesis s \<in> set (blocks s) \<and>
     LocalBlockHeader.sequence (store_genesis s) = 1 \<and>
     store_head s \<in> set (blocks s) \<and>
     (\<forall>b \<in> set (blocks s).
        1 \<le> LocalBlockHeader.sequence b \<and>
        (b = store_genesis s \<or>
         (\<exists>parent \<in> set (blocks s).
            LocalBlockHeader.hash parent = previousBlockHash b \<and>
            LocalBlockHeader.sequence b = LocalBlockHeader.sequence parent + 1)))"

text \<open>
  Replaying events onto a stack of headers, the top first: \<^verbatim>\<open>Add\<close> pushes a header that
  is not on the stack, \<^verbatim>\<open>Remove\<close> pops the header on top. The replay fails on any other
  event.
\<close>

fun replay :: "chain_event list \<Rightarrow> LocalBlockHeader list \<Rightarrow> LocalBlockHeader list option" where
  "replay [] st = Some st"
| "replay (Add h # es) st = (if h \<in> set st then None else replay es (h # st))"
| "replay (Remove h # es) st =
     (case st of [] \<Rightarrow> None | x # rest \<Rightarrow> if x = h then replay es rest else None)"


text \<open>A signal that no read finds aborted, an absent signal among them.\<close>

definition never_aborted :: "AbortSignal option \<Rightarrow> bool" where
  "never_aborted signal \<longleftrightarrow> (\<forall>k. \<not> aborted signal k)"



text \<open>The store of scenarios 3 and 4, from the hashes of its headers.\<close>

definition reorg_store ::
  "Buffer \<Rightarrow> Buffer \<Rightarrow> Buffer \<Rightarrow> Buffer \<Rightarrow> Buffer \<Rightarrow> Buffer \<Rightarrow> Buffer \<Rightarrow> Buffer \<Rightarrow> Buffer \<Rightarrow> Store" where
  "reorg_store z g a1 a2 a3 b1 b2 b3 b4 =
     \<lparr>blocks = [header g z 1, header a1 g 2, header a2 a1 3, header a3 a2 4,
                header b1 g 2, header b2 b1 3, header b3 b2 4, header b4 b3 5],
      store_genesis = header g z 1,
      store_head = header b4 b3 5\<rparr>"

text \<open>The store of scenario 4 after its head has been moved back to \<open>A1\<close>.\<close>

definition rolled_back_store :: Store where
  "rolled_back_store =
     \<lparr>blocks = [hG, hA1, hA2, hA3], store_genesis = hG, store_head = hA1\<rparr>"



section \<open>Properties of the reconciliation pass\<close>

subsection \<open>What a call leaves untouched\<close>

lemma remove_loop_frame:
  "remove_loop signal oldHash fork iter p es k = (r, p', es', k') \<Longrightarrow>
   chain p' = chain p \<and> logger p' = logger p \<and> onAdd p' = onAdd p \<and> onRemove p' = onRemove p
   \<and> ChainProcessor.more p' = ChainProcessor.more p"
  by (induction iter arbitrary: p es k) (auto split: if_splits)

lemma add_loop_frame:
  "add_loop signal oldHash fork iter p es k = (r, p', es', k') \<Longrightarrow>
   chain p' = chain p \<and> logger p' = logger p \<and> onAdd p' = onAdd p \<and> onRemove p' = onRemove p
   \<and> ChainProcessor.more p' = ChainProcessor.more p"
  by (induction iter arbitrary: p es k) (auto split: if_splits)

lemma reconcile_frame:
  assumes "reconcile signal oldHash h p es = (r, p', es')"
  shows "chain p' = chain p \<and> logger p' = logger p \<and> onAdd p' = onAdd p \<and> onRemove p' = onRemove p
   \<and> ChainProcessor.more p' = ChainProcessor.more p"
  using assms unfolding reconcile_def Let_def
  by (auto split: option.splits prod.splits if_splits dest!: remove_loop_frame add_loop_frame)

lemma update_frame:
  assumes "update p signal = (r, p', es')"
  shows "chain p' = chain p \<and> logger p' = logger p \<and> onAdd p' = onAdd p \<and> onRemove p' = onRemove p
   \<and> ChainProcessor.more p' = ChainProcessor.more p"
  using assms unfolding update_def
  by (auto split: option.splits dest!: reconcile_frame)

text \<open>
  C10. Every call of \<^verbatim>\<open>update\<close>, with any signal and however it ends, leaves the chain
  reference, the logger and the two event emitters with their registered handlers as they
  were: the processor after the call is the processor before it with the fields \<open>hash\<close>
  and \<open>sequence\<close> replaced.
\<close>

theorem update_mutates_only_cursor:
  "chain (processor (update p signal)) = chain p \<and>
   logger (processor (update p signal)) = logger p \<and>
   onAdd (processor (update p signal)) = onAdd p \<and>
   onRemove (processor (update p signal)) = onRemove p \<and>
   processor (update p signal) =
     p\<lparr>hash := hash (processor (update p signal)),
       sequence := sequence (processor (update p signal))\<rparr>"
proof -
  obtain r p' es' where u: "update p signal = (r, p', es')"
    by (cases "update p signal") auto
  from update_frame [OF u] show ?thesis
    by (simp add: u processor_def)
qed

subsection \<open>A call when the head has not moved\<close>

text \<open>
  C9. When the cursor is seeded and its hash is the hash of the store's current head, a
  call returns \<^verbatim>\<open>{ hashChanged: false }\<close>, emits no event and leaves the processor as
  it was.
\<close>

theorem update_at_head_is_noop:
  assumes "hash p = Some h" and "LocalBlockHeader.hash (head (chain p)) = h"
  shows "update p signal = (Inr False, p, [])"
  using assms by (simp add: update_def reconcile_def)

theorem update_at_head_is_noop_witness:
  "hash (new_processor cold_store (Some [1])) = Some [1] \<and>
   LocalBlockHeader.hash (head (chain (new_processor cold_store (Some [1])))) = [1] \<and>
   update (new_processor cold_store (Some [1])) None =
     (Inr False, new_processor cold_store (Some [1]), [])"
proof -
  have a: "hash (new_processor cold_store (Some [1])) = Some [1]"
    by (simp add: new_processor_def ChainProcessor_new_def)
  have b: "LocalBlockHeader.hash (head (chain (new_processor cold_store (Some [1])))) = [1]"
    by (simp add: new_processor_def ChainProcessor_new_def store_chain_def cold_store_def
        hG_def header_def)
  from a b update_at_head_is_noop [OF a b, of None] show ?thesis by simp
qed

subsection \<open>Evaluating the scenarios\<close>

lemmas scenario_defs = new_processor_def ChainProcessor_new_def store_chain_def cold_store_def
  hG_def hA1_def hA2_def hA3_def hB1_def hB2_def hB3_def hB4_def hC1_def header_def

subsection \<open>The value returned on a cold start\<close>

text \<open>
  C5. The claim is that \<^verbatim>\<open>hashChanged\<close> is true exactly when the cursor at return differs
  from the cursor at entry, also when an unseeded cursor is seeded at the genesis header
  while the head is the genesis header. The three returns of lines 86, 103 and 115 compute
  \<^verbatim>\<open>!oldHash || ...\<close>, which is true for an unseeded entry; the return of line 66 answers
  \<^verbatim>\<open>false\<close> without looking at \<^verbatim>\<open>oldHash\<close>. On a cold start over a store that holds the
  genesis header only, the call emits \<^verbatim>\<open>Add(G)\<close>, moves the cursor from \<^verbatim>\<open>null\<close> to the
  genesis hash and returns \<^verbatim>\<open>{ hashChanged: false }\<close>.
\<close>

theorem cold_start_returns_unchanged:
  "hash (new_processor cold_store None) = None \<and>
   outcome (update (new_processor cold_store None) None) = Inr False \<and>
   hash (processor (update (new_processor cold_store None) None)) = Some [1] \<and>
   emitted (update (new_processor cold_store None) None) = [Add hG]"
  by (simp add: Let_def update_def reconcile_def outcome_def processor_def emitted_def scenario_defs)

subsection \<open>A cursor whose header the store does not hold\<close>

text \<open>
  C7, as amended. When \<^verbatim>\<open>getHeader(this.hash)\<close> answers \<^verbatim>\<open>null\<close> during a call, the call
  throws the assertion error. A cursor that was seeded at entry is left as it was and no
  event is emitted. A cursor that was unseeded at entry has been moved to the genesis
  header by then, after the emission of \<^verbatim>\<open>Add(genesis)\<close>.
\<close>

theorem missing_cursor_header:
  assumes "LocalBlockHeader.hash (head (chain p)) \<noteq> entry_hash p"
    and "getHeader (chain p) (entry_hash p) = None"
  shows "outcome (update p signal) =
           Inl (AssertionError ''Chain processor head not found in chain'' (entry_hash p)) \<and>
         emitted (update p signal) = bootstrap p \<and>
         (hash p \<noteq> None \<longrightarrow> processor (update p signal) = p) \<and>
         (hash p = None \<longrightarrow> processor (update p signal) =
            p\<lparr>hash := Some (LocalBlockHeader.hash (genesis (chain p))),
              sequence := Some (LocalBlockHeader.sequence (genesis (chain p)))\<rparr>)"
  using assms
  by (cases "hash p")
     (simp_all add: Let_def update_def reconcile_def outcome_def processor_def emitted_def entry_hash_def
       bootstrap_def)

text \<open>
  The amended statement at the store that has lost its genesis header, for a processor
  seeded at the genesis hash.
\<close>

theorem missing_cursor_header_witness:
  "LocalBlockHeader.hash (head (chain (new_processor lost_store (Some [1])))) \<noteq>
     entry_hash (new_processor lost_store (Some [1])) \<and>
   getHeader (chain (new_processor lost_store (Some [1])))
     (entry_hash (new_processor lost_store (Some [1]))) = None \<and>
   outcome (update (new_processor lost_store (Some [1])) None) =
     Inl (AssertionError ''Chain processor head not found in chain'' [1]) \<and>
   emitted (update (new_processor lost_store (Some [1])) None) = [] \<and>
   processor (update (new_processor lost_store (Some [1])) None) =
     new_processor lost_store (Some [1])"
proof -
  let ?p = "new_processor lost_store (Some [1])"
  have e: "entry_hash ?p = [1]" by (simp add: entry_hash_def scenario_defs)
  have a: "LocalBlockHeader.hash (head (chain ?p)) \<noteq> entry_hash ?p"
    by (simp add: e) (simp add: lost_store_def scenario_defs)
  have b: "getHeader (chain ?p) (entry_hash ?p) = None"
    by (simp add: e) (simp add: lost_store_def store_getHeader_def scenario_defs)
  have c: "hash ?p \<noteq> None" "bootstrap ?p = []"
    by (simp_all add: bootstrap_def scenario_defs)
  from missing_cursor_header [OF a b, of None] a b c e show ?thesis by simp
qed

text \<open>
  C7 as stated fails for an unseeded processor over that store: the lookup of the genesis
  hash finds nothing, the call throws, and the cursor has moved from \<^verbatim>\<open>null\<close> to the
  genesis hash.
\<close>

theorem missing_cursor_header_counterexample:
  "getHeader (chain (new_processor lost_store None)) (entry_hash (new_processor lost_store None)) = None \<and>
   outcome (update (new_processor lost_store None) None) =
     Inl (AssertionError ''Chain processor head not found in chain'' [1]) \<and>
   hash (new_processor lost_store None) = None \<and>
   hash (processor (update (new_processor lost_store None) None)) = Some [1]"
  by (simp add: Let_def update_def reconcile_def outcome_def processor_def entry_hash_def lost_store_def
      store_getHeader_def scenario_defs)

subsection \<open>No common ancestor\<close>

text \<open>
  C8, as amended. When \<^verbatim>\<open>findFork\<close> answers no fork in a call that was entered with a
  seeded cursor, the call returns \<^verbatim>\<open>{ hashChanged: false }\<close>, emits no event and leaves
  the processor, its logger included, as it was: nothing is logged.
\<close>

theorem disjoint_fork:
  assumes "hash p = Some h"
    and "LocalBlockHeader.hash (head (chain p)) \<noteq> h"
    and "getHeader (chain p) h = Some c"
    and "fst (findFork (chain p) c (head (chain p))) = None"
  shows "update p signal = (Inr False, p, [])"
  using assms
  by (cases "findFork (chain p) c (head (chain p))") (simp add: Let_def update_def reconcile_def)

text \<open>Scenario 6: the cursor at \<open>A1\<close>, the head \<open>C1\<close> in a separate tree.\<close>

theorem disjoint_fork_witness:
  "hash (new_processor disjoint_store (Some [2])) = Some [2] \<and>
   LocalBlockHeader.hash (head (chain (new_processor disjoint_store (Some [2])))) \<noteq> [2] \<and>
   getHeader (chain (new_processor disjoint_store (Some [2]))) [2] = Some hA1 \<and>
   fst (findFork (chain (new_processor disjoint_store (Some [2]))) hA1
          (head (chain (new_processor disjoint_store (Some [2]))))) = None \<and>
   update (new_processor disjoint_store (Some [2])) None =
     (Inr False, new_processor disjoint_store (Some [2]), [])"
proof -
  let ?p = "new_processor disjoint_store (Some [2])"
  have a: "hash ?p = Some [2]" by (simp add: scenario_defs)
  have b: "LocalBlockHeader.hash (head (chain ?p)) \<noteq> [2]"
    by (simp add: disjoint_store_def scenario_defs)
  have c: "getHeader (chain ?p) [2] = Some hA1"
    by (simp add: disjoint_store_def store_getHeader_def scenario_defs)
  have d: "fst (findFork (chain ?p) hA1 (head (chain ?p))) = None"
    by code_simp
  from disjoint_fork [OF a b c d, of None] a b c d show ?thesis by simp
qed

text \<open>
  C8 as stated fails in a call entered with an unseeded cursor over that store:
  \<^verbatim>\<open>findFork\<close> answers no fork for the genesis header and the head, yet the call has
  emitted \<^verbatim>\<open>Add(G)\<close> and moved the cursor, and nothing has been written to the logger.
\<close>

theorem disjoint_fork_counterexample:
  "getHeader (chain (new_processor disjoint_store None)) [1] = Some hG \<and>
   fst (findFork (chain (new_processor disjoint_store None)) hG hC1) = None \<and>
   outcome (update (new_processor disjoint_store None) None) = Inr False \<and>
   emitted (update (new_processor disjoint_store None) None) = [Add hG] \<and>
   hash (new_processor disjoint_store None) = None \<and>
   hash (processor (update (new_processor disjoint_store None) None)) = Some [1] \<and>
   entries (logger (processor (update (new_processor disjoint_store None) None))) = []"
  by code_simp

subsection \<open>Reads of the abort signal\<close>










subsection \<open>Seeding of the cursor\<close>










subsection \<open>Ancestors in a well-formed store\<close>

lemma find_hash_Some:
  "distinct (map LocalBlockHeader.hash bs) \<Longrightarrow> b \<in> set bs \<Longrightarrow> find (\<lambda>x. LocalBlockHeader.hash x = LocalBlockHeader.hash b) bs = Some b"
  by (induction bs) (auto simp: image_iff)

lemma getHeader_present:
  "wf_store s \<Longrightarrow> b \<in> set (blocks s) \<Longrightarrow> store_getHeader s (LocalBlockHeader.hash b) = Some b"
  by (simp add: wf_store_def store_getHeader_def find_hash_Some)

lemma getHeader_SomeD:
  "store_getHeader s h = Some b \<Longrightarrow> b \<in> set (blocks s) \<and> LocalBlockHeader.hash b = h"
  unfolding store_getHeader_def by (auto simp: find_Some_iff)

lemma hash_inj:
  "wf_store s \<Longrightarrow> a \<in> set (blocks s) \<Longrightarrow> b \<in> set (blocks s) \<Longrightarrow> LocalBlockHeader.hash a = LocalBlockHeader.hash b \<Longrightarrow> a = b"
  unfolding wf_store_def by (metis distinct_map inj_onD)

lemma sequence_pos: "wf_store s \<Longrightarrow> b \<in> set (blocks s) \<Longrightarrow> 1 \<le> LocalBlockHeader.sequence b"
  by (simp add: wf_store_def)

lemma ancestors_genesis:
  assumes "wf_store s"
  shows "ancestors s (store_genesis s) = [store_genesis s]"
proof -
  from assms have "LocalBlockHeader.sequence (store_genesis s) = 1" by (simp add: wf_store_def)
  then show ?thesis by (simp add: ancestors_def split: option.splits)
qed

lemma ancestors_step:
  assumes wf: "wf_store s" and b: "b \<in> set (blocks s)" and ng: "b \<noteq> store_genesis s"
  shows "\<exists>parent \<in> set (blocks s). LocalBlockHeader.hash parent = previousBlockHash b \<and> LocalBlockHeader.sequence parent = LocalBlockHeader.sequence b - 1 \<and>
           ancestors s b = b # ancestors s parent"
proof -
  from wf b ng obtain parent where p: "parent \<in> set (blocks s)"
    "LocalBlockHeader.hash parent = previousBlockHash b" "LocalBlockHeader.sequence b = LocalBlockHeader.sequence parent + 1"
    unfolding wf_store_def by blast
  from sequence_pos [OF wf p(1)] p(3) have "nat (LocalBlockHeader.sequence b) = Suc (nat (LocalBlockHeader.sequence parent))" by simp
  moreover from getHeader_present [OF wf p(1)] p(2)
  have "store_getHeader s (previousBlockHash b) = Some parent" by simp
  ultimately have "ancestors s b = b # ancestors s parent" by (simp add: ancestors_def)
  with p show ?thesis by auto
qed

lemma store_induct [consumes 2, case_names genesis step]:
  assumes wf: "wf_store s" and b: "b \<in> set (blocks s)"
    and g: "P (store_genesis s)"
    and st: "\<And>b parent. b \<in> set (blocks s) \<Longrightarrow> b \<noteq> store_genesis s \<Longrightarrow>
              parent \<in> set (blocks s) \<Longrightarrow> LocalBlockHeader.hash parent = previousBlockHash b \<Longrightarrow>
              LocalBlockHeader.sequence parent = LocalBlockHeader.sequence b - 1 \<Longrightarrow> ancestors s b = b # ancestors s parent \<Longrightarrow>
              P parent \<Longrightarrow> P b"
  shows "P b"
  using b
proof (induction "nat (LocalBlockHeader.sequence b)" arbitrary: b)
  case 0
  with sequence_pos [OF wf] show ?case by force
next
  case (Suc n)
  show ?case
  proof (cases "b = store_genesis s")
    case True
    with g show ?thesis by simp
  next
    case False
    from ancestors_step [OF wf Suc.prems False] obtain parent where
      p: "parent \<in> set (blocks s)" "LocalBlockHeader.hash parent = previousBlockHash b" "LocalBlockHeader.sequence parent = LocalBlockHeader.sequence b - 1"
         "ancestors s b = b # ancestors s parent" by blast
    from Suc.hyps(2) p(3) have "n = nat (LocalBlockHeader.sequence parent)" by simp
    from Suc.hyps(1) [OF this p(1)] have "P parent" .
    from st [OF Suc.prems False p this] show ?thesis .
  qed
qed

lemma ancestors_hd:
  assumes "wf_store s" "b \<in> set (blocks s)"
  shows "\<exists>rest. ancestors s b = b # rest"
  using assms by (cases "b = store_genesis s") (auto simp: ancestors_genesis dest: ancestors_step)

lemma ancestors_subset:
  assumes "wf_store s" "b \<in> set (blocks s)"
  shows "set (ancestors s b) \<subseteq> set (blocks s)"
  using assms
proof (induction rule: store_induct)
  case genesis
  with assms(1) show ?case by (simp add: ancestors_genesis wf_store_def)
next
  case (step b parent)
  then show ?case by simp
qed

lemma ancestors_sequence_le:
  assumes "wf_store s" "b \<in> set (blocks s)"
  shows "\<forall>x \<in> set (ancestors s b). LocalBlockHeader.sequence x \<le> LocalBlockHeader.sequence b"
  using assms
proof (induction rule: store_induct)
  case genesis
  with assms(1) show ?case by (simp add: ancestors_genesis)
next
  case (step b parent)
  then show ?case by auto
qed

lemma ancestors_distinct:
  assumes "wf_store s" "b \<in> set (blocks s)"
  shows "distinct (ancestors s b)"
  using assms
proof (induction rule: store_induct)
  case genesis
  with assms(1) show ?case by (simp add: ancestors_genesis)
next
  case (step b parent)
  from ancestors_sequence_le [OF assms(1) step(3)] step(5)
  have "b \<notin> set (ancestors s parent)" by auto
  with step show ?case by simp
qed

lemma ancestors_has_genesis:
  assumes "wf_store s" "b \<in> set (blocks s)"
  shows "store_genesis s \<in> set (ancestors s b)"
  using assms
proof (induction rule: store_induct)
  case genesis
  with assms(1) show ?case by (simp add: ancestors_genesis)
next
  case (step b parent)
  then show ?case by simp
qed

lemma ancestors_suffix:
  assumes "wf_store s" "b \<in> set (blocks s)"
  shows "ancestors s b = xs @ c # ys \<Longrightarrow> ancestors s c = c # ys"
  using assms
proof (induction arbitrary: xs rule: store_induct)
  case genesis
  with assms(1) show ?case by (auto simp: ancestors_genesis Cons_eq_append_conv)
next
  case (step b parent)
  show ?case
  proof (cases xs)
    case Nil
    with step.prems step.hyps show ?thesis by simp
  next
    case (Cons x xs')
    with step.prems step.hyps have "ancestors s parent = xs' @ c # ys" by simp
    from step.IH [OF this] show ?thesis .
  qed
qed

lemma ancestors_link:
  assumes wf: "wf_store s" and b: "b \<in> set (blocks s)"
    and eq: "ancestors s b = xs @ x # y # ys"
  shows "LocalBlockHeader.hash y = previousBlockHash x \<and> LocalBlockHeader.sequence y = LocalBlockHeader.sequence x - 1"
proof -
  from ancestors_suffix [OF wf b eq] have ax: "ancestors s x = x # y # ys" .
  from ancestors_subset [OF wf b] eq have xb: "x \<in> set (blocks s)" by auto
  from ax ancestors_genesis [OF wf] have "x \<noteq> store_genesis s" by auto
  from ancestors_step [OF wf xb this] obtain parent where
    p: "parent \<in> set (blocks s)" "LocalBlockHeader.hash parent = previousBlockHash x" "LocalBlockHeader.sequence parent = LocalBlockHeader.sequence x - 1"
       "ancestors s x = x # ancestors s parent" by blast
  from ancestors_hd [OF wf p(1)] p(4) ax have "y = parent" by auto
  with p show ?thesis by simp
qed

lemma ancestors_hash_distinct:
  assumes wf: "wf_store s" and b: "b \<in> set (blocks s)"
  shows "distinct (map LocalBlockHeader.hash (ancestors s b))"
proof -
  from wf have "inj_on LocalBlockHeader.hash (set (blocks s))" by (simp add: wf_store_def distinct_map)
  with ancestors_subset [OF wf b] have "inj_on LocalBlockHeader.hash (set (ancestors s b))"
    by (rule inj_on_subset [rotated])
  with ancestors_distinct [OF wf b] show ?thesis by (simp add: distinct_map)
qed

subsection \<open>What the two loops emit\<close>

lemma remove_loop_effect:
  "remove_loop signal old fork iter p es k = (r, p', es', k') \<Longrightarrow>
   \<exists>ys zs. filter (\<lambda>x. LocalBlockHeader.hash x \<noteq> LocalBlockHeader.hash fork) iter = ys @ zs \<and> es' = es @ map Remove ys \<and>
     p' = (if ys = [] then p
           else p\<lparr>hash := Some (previousBlockHash (last ys)), sequence := Some (LocalBlockHeader.sequence (last ys) - 1)\<rparr>) \<and>
     (r = None \<longrightarrow> zs = []) \<and> (never_aborted signal \<longrightarrow> r = None)"
proof (induction iter arbitrary: p es k)
  case Nil
  then show ?case by simp
next
  case (Cons x iter)
  show ?case
  proof (cases "aborted signal k")
    case True
    with Cons.prems have "es' = es" "p' = p" "r \<noteq> None" by auto
    with True show ?thesis by (auto simp: never_aborted_def intro!: exI [of _ "[]"])
  next
    case False
    show ?thesis
    proof (cases "LocalBlockHeader.hash x = LocalBlockHeader.hash fork")
      case True
      with False Cons.prems
      have "remove_loop signal old fork iter p es (Suc k) = (r, p', es', k')" by simp
      from Cons.IH [OF this] True show ?thesis by simp
    next
      case ne: False
      let ?p = "p\<lparr>hash := Some (previousBlockHash x), sequence := Some (LocalBlockHeader.sequence x - 1)\<rparr>"
      from ne False Cons.prems
      have "remove_loop signal old fork iter ?p (es @ [Remove x]) (Suc k) = (r, p', es', k')"
        by simp
      from Cons.IH [OF this] obtain ys zs where
        i: "filter (\<lambda>x. LocalBlockHeader.hash x \<noteq> LocalBlockHeader.hash fork) iter = ys @ zs" "es' = (es @ [Remove x]) @ map Remove ys"
           "p' = (if ys = [] then ?p
                  else ?p\<lparr>hash := Some (previousBlockHash (last ys)),
                          sequence := Some (LocalBlockHeader.sequence (last ys) - 1)\<rparr>)"
           "r = None \<longrightarrow> zs = []" "never_aborted signal \<longrightarrow> r = None" by blast
      show ?thesis
        apply (rule exI [of _ "x # ys"])
        apply (rule exI [of _ zs])
        using i ne by simp
    qed
  qed
qed

lemma add_loop_effect:
  "add_loop signal old fork iter p es k = (r, p', es', k') \<Longrightarrow>
   \<exists>ys zs. filter (\<lambda>x. LocalBlockHeader.hash x \<noteq> LocalBlockHeader.hash fork) iter = ys @ zs \<and> es' = es @ map Add ys \<and>
     p' = (if ys = [] then p
           else p\<lparr>hash := Some (LocalBlockHeader.hash (last ys)), sequence := Some (LocalBlockHeader.sequence (last ys))\<rparr>) \<and>
     (r = None \<longrightarrow> zs = []) \<and> (never_aborted signal \<longrightarrow> r = None)"
proof (induction iter arbitrary: p es k)
  case Nil
  then show ?case by simp
next
  case (Cons x iter)
  show ?case
  proof (cases "aborted signal k")
    case True
    with Cons.prems have "es' = es" "p' = p" "r \<noteq> None" by auto
    with True show ?thesis by (auto simp: never_aborted_def intro!: exI [of _ "[]"])
  next
    case False
    show ?thesis
    proof (cases "LocalBlockHeader.hash x = LocalBlockHeader.hash fork")
      case True
      with False Cons.prems
      have "add_loop signal old fork iter p es (Suc k) = (r, p', es', k')" by simp
      from Cons.IH [OF this] True show ?thesis by simp
    next
      case ne: False
      let ?p = "p\<lparr>hash := Some (LocalBlockHeader.hash x), sequence := Some (LocalBlockHeader.sequence x)\<rparr>"
      from ne False Cons.prems
      have "add_loop signal old fork iter ?p (es @ [Add x]) (Suc k) = (r, p', es', k')"
        by simp
      from Cons.IH [OF this] obtain ys zs where
        i: "filter (\<lambda>x. LocalBlockHeader.hash x \<noteq> LocalBlockHeader.hash fork) iter = ys @ zs" "es' = (es @ [Add x]) @ map Add ys"
           "p' = (if ys = [] then ?p
                  else ?p\<lparr>hash := Some (LocalBlockHeader.hash (last ys)), sequence := Some (LocalBlockHeader.sequence (last ys))\<rparr>)"
           "r = None \<longrightarrow> zs = []" "never_aborted signal \<longrightarrow> r = None" by blast
      show ?thesis
        apply (rule exI [of _ "x # ys"])
        apply (rule exI [of _ zs])
        using i ne by simp
    qed
  qed
qed

lemma replay_append:
  "replay (a @ b) st = (case replay a st of None \<Rightarrow> None | Some m \<Rightarrow> replay b m)"
  by (induction a st rule: replay.induct) (auto split: list.splits)

lemma replay_removes: "replay (map Remove ys) (ys @ st) = Some st"
  by (induction ys) auto

lemma replay_adds: "distinct (rev ys @ st) \<Longrightarrow> replay (map Add ys) st = Some (rev ys @ st)"
  by (induction ys arbitrary: st) auto




subsection \<open>The fork and the two iterators\<close>

lemma find_split:
  "find P l = Some f \<Longrightarrow> \<exists>xs rest. l = xs @ f # rest \<and> P f \<and> (\<forall>x \<in> set xs. \<not> P x)"
proof (induction l)
  case Nil
  then show ?case by simp
next
  case (Cons a l)
  show ?case
  proof (cases "P a")
    case True
    with Cons.prems have "a = f" by simp
    with True show ?thesis by (intro exI [of _ "[]"] exI [of _ l]) simp
  next
    case False
    with Cons.prems have "find P l = Some f" by simp
    from Cons.IH [OF this] obtain xs rest where
      "l = xs @ f # rest" "P f" "\<forall>x \<in> set xs. \<not> P x" by blast
    with False show ?thesis by (intro exI [of _ "a # xs"] exI [of _ rest]) simp
  qed
qed

lemma take_through_split:
  "\<forall>x \<in> set xs. \<not> P x \<Longrightarrow> P f \<Longrightarrow> take_through P (xs @ f # rest) = xs @ [f]"
  by (induction xs) auto

lemma take_through_last:
  "\<forall>x \<in> set xs. \<not> P x \<Longrightarrow> take_through P (xs @ [y]) = xs @ [y]"
  by (induction xs) auto

lemma fork_decomp:
  assumes wf: "wf_store s" and c: "c \<in> set (blocks s)" and d: "d \<in> set (blocks s)"
  shows "\<exists>f xs zs rest.
           store_findFork s c d = (Some f, xs = [] \<or> zs = []) \<and>
           ancestors s c = xs @ f # rest \<and> ancestors s d = zs @ f # rest \<and>
           (\<forall>x \<in> set xs. LocalBlockHeader.hash x \<noteq> LocalBlockHeader.hash f) \<and> (\<forall>x \<in> set zs. LocalBlockHeader.hash x \<noteq> LocalBlockHeader.hash f) \<and>
           (\<forall>x \<in> set rest. LocalBlockHeader.hash x \<noteq> LocalBlockHeader.hash f)"
proof -
  let ?P = "\<lambda>x. LocalBlockHeader.hash x \<in> set (map LocalBlockHeader.hash (ancestors s d))"
  from ancestors_has_genesis [OF wf d] have "?P (store_genesis s)" by simp
  with ancestors_has_genesis [OF wf c] have "find ?P (ancestors s c) \<noteq> None"
    by (auto simp: find_None_iff)
  then obtain f where fd: "find ?P (ancestors s c) = Some f" by auto
  from find_split [OF fd] obtain xs rest where
    ac: "ancestors s c = xs @ f # rest" and pf: "?P f" and nx: "\<forall>x \<in> set xs. \<not> ?P x"
    by blast
  from pf obtain f' where f': "f' \<in> set (ancestors s d)" "LocalBlockHeader.hash f' = LocalBlockHeader.hash f" by auto
  from ac ancestors_subset [OF wf c] have fb: "f \<in> set (blocks s)" by auto
  from f' ancestors_subset [OF wf d] have "f' \<in> set (blocks s)" by auto
  from hash_inj [OF wf this fb f'(2)] f'(1) have "f \<in> set (ancestors s d)" by simp
  then obtain zs rest' where ad': "ancestors s d = zs @ f # rest'"
    by (auto simp: in_set_conv_decomp)
  from ancestors_suffix [OF wf c ac] ancestors_suffix [OF wf d ad']
  have "rest' = rest" by simp
  with ad' have ad: "ancestors s d = zs @ f # rest" by simp
  from ancestors_hash_distinct [OF wf c] ac
  have hx: "\<forall>x \<in> set xs. LocalBlockHeader.hash x \<noteq> LocalBlockHeader.hash f" and hr: "\<forall>x \<in> set rest. LocalBlockHeader.hash x \<noteq> LocalBlockHeader.hash f"
    by (auto simp: image_iff)
  from ancestors_hash_distinct [OF wf d] ad
  have hz: "\<forall>x \<in> set zs. LocalBlockHeader.hash x \<noteq> LocalBlockHeader.hash f" by (auto simp: image_iff)
  from ancestors_hd [OF wf c] ac hx have l1: "LocalBlockHeader.hash f = LocalBlockHeader.hash c \<longleftrightarrow> xs = []"
    by (cases xs) auto
  from ancestors_hd [OF wf d] ad hz have l2: "LocalBlockHeader.hash f = LocalBlockHeader.hash d \<longleftrightarrow> zs = []"
    by (cases zs) auto
  from fd l1 l2 have "store_findFork s c d = (Some f, xs = [] \<or> zs = [])"
    by (simp add: store_findFork_def)
  with ac ad hx hz hr show ?thesis by blast
qed

lemma iterateFrom_fork:
  assumes "ancestors s c = xs @ f # rest" and "\<forall>x \<in> set xs. LocalBlockHeader.hash x \<noteq> LocalBlockHeader.hash f"
  shows "store_iterateFrom s c f = xs @ [f]"
  using assms by (simp add: store_iterateFrom_def take_through_split)

lemma iterateTo_head:
  assumes wf: "wf_store s"
    and ad: "ancestors s (store_head s) = zs @ f # rest"
    and hz: "\<forall>x \<in> set zs. LocalBlockHeader.hash x \<noteq> LocalBlockHeader.hash f" and hr: "\<forall>x \<in> set rest. LocalBlockHeader.hash x \<noteq> LocalBlockHeader.hash f"
  shows "store_iterateTo s f (store_head s) = f # rev zs"
proof -
  from wf have d: "store_head s \<in> set (blocks s)" by (simp add: wf_store_def)
  have "dropWhile (\<lambda>b. LocalBlockHeader.hash b \<noteq> LocalBlockHeader.hash f) (rev rest @ f # rev zs) =
          dropWhile (\<lambda>b. LocalBlockHeader.hash b \<noteq> LocalBlockHeader.hash f) (f # rev zs)"
    using hr by (intro dropWhile_append2) simp
  then have "dropWhile (\<lambda>b. LocalBlockHeader.hash b \<noteq> LocalBlockHeader.hash f) (canonical s) = f # rev zs"
    by (simp add: canonical_def ad)
  moreover have "take_through (\<lambda>b. LocalBlockHeader.hash b = LocalBlockHeader.hash (store_head s)) (f # rev zs) = f # rev zs"
  proof (cases zs)
    case Nil
    with ancestors_hd [OF wf d] ad show ?thesis by simp
  next
    case (Cons z zs')
    with ancestors_hd [OF wf d] ad have z: "z = store_head s" by simp
    from ancestors_hash_distinct [OF wf d] ad Cons z
    have "\<forall>x \<in> set (f # rev zs'). \<not> LocalBlockHeader.hash x = LocalBlockHeader.hash (store_head s)" by (auto simp: image_iff)
    from take_through_last [OF this, of z] Cons show ?thesis by simp
  qed
  ultimately show ?thesis by (simp add: store_iterateTo_def)
qed

subsection \<open>A pass over a well-formed store\<close>

lemma unwind_effect:
  assumes wf: "wf_store s" and c: "c \<in> set (blocks s)"
    and ac: "ancestors s c = xs @ f # rest"
    and hx: "\<forall>x \<in> set xs. LocalBlockHeader.hash x \<noteq> LocalBlockHeader.hash f"
    and loop: "remove_loop signal old f (xs @ [f]) p es k = (r, p1, es1, k1)"
  shows "(never_aborted signal \<longrightarrow> r = None) \<and>
         ((p1 = p \<and> es1 = es \<and> (r = None \<longrightarrow> xs = [])) \<or>
          (\<exists>c1 new. c1 \<in> set (blocks s) \<and> es1 = es @ new \<and>
             replay new (ancestors s c) = Some (ancestors s c1) \<and>
             hash p1 = Some (LocalBlockHeader.hash c1) \<and> sequence p1 = Some (LocalBlockHeader.sequence c1) \<and>
             (r = None \<longrightarrow> c1 = f)))"
proof -
  from hx have flt: "filter (\<lambda>x. LocalBlockHeader.hash x \<noteq> LocalBlockHeader.hash f) (xs @ [f]) = xs" by simp
  from remove_loop_effect [OF loop] flt obtain ys zs where
    e: "xs = ys @ zs" "es1 = es @ map Remove ys"
       "p1 = (if ys = [] then p
              else p\<lparr>hash := Some (previousBlockHash (last ys)), sequence := Some (LocalBlockHeader.sequence (last ys) - 1)\<rparr>)"
       "r = None \<longrightarrow> zs = []" "never_aborted signal \<longrightarrow> r = None" by auto
  show ?thesis
  proof (cases "ys = []")
    case True
    with e show ?thesis by simp
  next
    case False
    then obtain ys' y where ys: "ys = ys' @ [y]" by (metis rev_exhaust)
    obtain c1 tail where t: "zs @ f # rest = c1 # tail" by (cases zs) auto
    with ac e(1) ys have ac': "ancestors s c = ys' @ y # c1 # tail" by simp
    from ac e(1) t have ac'': "ancestors s c = ys @ c1 # tail" by simp
    from ancestors_link [OF wf c ac'] have l: "LocalBlockHeader.hash c1 = previousBlockHash y" "LocalBlockHeader.sequence c1 = LocalBlockHeader.sequence y - 1"
      by simp_all
    from ancestors_suffix [OF wf c ac''] have a1: "ancestors s c1 = c1 # tail" .
    from ac'' ancestors_subset [OF wf c] have cb: "c1 \<in> set (blocks s)" by auto
    have rp: "replay (map Remove ys) (ancestors s c) = Some (ancestors s c1)"
      by (simp add: ac'' a1 replay_removes)
    from e(4) t have "r = None \<longrightarrow> c1 = f" by auto
    with cb e(2) rp e(3) False ys l e(5) show ?thesis by auto
  qed
qed

lemma rewind_effect:
  assumes wf: "wf_store s" and d: "d \<in> set (blocks s)"
    and ad: "ancestors s d = zs @ f # rest"
    and hz: "\<forall>x \<in> set zs. LocalBlockHeader.hash x \<noteq> LocalBlockHeader.hash f"
    and loop: "add_loop signal old f (f # rev zs) p es k = (r, p2, es2, k2)"
  shows "(never_aborted signal \<longrightarrow> r = None) \<and>
         ((p2 = p \<and> es2 = es \<and> (r = None \<longrightarrow> zs = [])) \<or>
          (\<exists>c2 new. c2 \<in> set (blocks s) \<and> es2 = es @ new \<and>
             replay new (ancestors s f) = Some (ancestors s c2) \<and>
             hash p2 = Some (LocalBlockHeader.hash c2) \<and> sequence p2 = Some (LocalBlockHeader.sequence c2) \<and>
             (r = None \<longrightarrow> c2 = d) \<and> zs \<noteq> []))"
proof -
  from hz have flt: "filter (\<lambda>x. LocalBlockHeader.hash x \<noteq> LocalBlockHeader.hash f) (f # rev zs) = rev zs" by simp
  from add_loop_effect [OF loop] flt obtain ys ws where
    e: "rev zs = ys @ ws" "es2 = es @ map Add ys"
       "p2 = (if ys = [] then p
              else p\<lparr>hash := Some (LocalBlockHeader.hash (last ys)), sequence := Some (LocalBlockHeader.sequence (last ys))\<rparr>)"
       "r = None \<longrightarrow> ws = []" "never_aborted signal \<longrightarrow> r = None" by auto
  show ?thesis
  proof (cases "ys = []")
    case True
    with e show ?thesis by auto
  next
    case False
    then obtain ys' y where ys: "ys = ys' @ [y]" by (metis rev_exhaust)
    from e(1) have "zs = rev ws @ rev ys" by (metis rev_append rev_rev_ident)
    with ad ys have ad': "ancestors s d = rev ws @ y # (rev ys' @ f # rest)" by simp
    from ancestors_suffix [OF wf d ad'] ys
    have ay: "ancestors s y = rev ys @ f # rest" by simp
    from ancestors_suffix [OF wf d ad] have af: "ancestors s f = f # rest" .
    from ad' ancestors_subset [OF wf d] have yb: "y \<in> set (blocks s)" by auto
    from ancestors_distinct [OF wf yb] ay have "distinct (rev ys @ f # rest)" by simp
    from replay_adds [OF this] af ay
    have rp: "replay (map Add ys) (ancestors s f) = Some (ancestors s y)" by simp
    have "r = None \<longrightarrow> y = d"
    proof
      assume "r = None"
      with e(4) ad' have "ancestors s d = y # (rev ys' @ f # rest)" by simp
      with ancestors_hd [OF wf d] show "y = d" by auto
    qed
    moreover from e(1) False have "zs \<noteq> []" by auto
    ultimately show ?thesis using yb e(2) rp e(3) False ys e(5) by auto
  qed
qed

lemma reconcile_store:
  assumes wf: "wf_store s" and ch: "chain p = store_chain s"
    and c: "c \<in> set (blocks s)"
    and rec: "reconcile signal old (LocalBlockHeader.hash c) p es = (r, p', es')"
  shows "\<exists>b. r = Inr b"
    and "(p' = p \<and> es' = es) \<or>
         (\<exists>c' new. c' \<in> set (blocks s) \<and> es' = es @ new \<and>
            replay new (ancestors s c) = Some (ancestors s c') \<and>
            hash p' = Some (LocalBlockHeader.hash c') \<and> sequence p' = Some (LocalBlockHeader.sequence c'))"
    and "never_aborted signal \<Longrightarrow> store_head s \<notin> set (tl (ancestors s c)) \<Longrightarrow>
         (c = store_head s \<and> p' = p) \<or>
         (hash p' = Some (LocalBlockHeader.hash (store_head s)) \<and> sequence p' = Some (LocalBlockHeader.sequence (store_head s)))"
proof -
  let ?d = "store_head s"
  from wf have d: "?d \<in> set (blocks s)" by (simp add: wf_store_def)
  have hd: "head (chain p) = ?d" by (simp add: ch store_chain_def)
  have all: "(\<exists>b. r = Inr b) \<and>
    ((p' = p \<and> es' = es) \<or>
         (\<exists>c' new. c' \<in> set (blocks s) \<and> es' = es @ new \<and>
            replay new (ancestors s c) = Some (ancestors s c') \<and>
            hash p' = Some (LocalBlockHeader.hash c') \<and> sequence p' = Some (LocalBlockHeader.sequence c'))) \<and>
    (never_aborted signal \<longrightarrow> ?d \<notin> set (tl (ancestors s c)) \<longrightarrow>
         (c = ?d \<and> p' = p) \<or>
         (hash p' = Some (LocalBlockHeader.hash ?d) \<and> sequence p' = Some (LocalBlockHeader.sequence ?d)))"
  proof (cases "LocalBlockHeader.hash ?d = LocalBlockHeader.hash c")
    case True
    with rec hd have "r = Inr False" "p' = p" "es' = es" by (simp_all add: reconcile_def)
    moreover from hash_inj [OF wf d c True] have "c = ?d" by simp
    ultimately show ?thesis by auto
  next
    case nh: False
    have gh: "getHeader (chain p) (LocalBlockHeader.hash c) = Some c"
      using getHeader_present [OF wf c] by (simp add: ch store_chain_def)
    from fork_decomp [OF wf c d] obtain f xs zs rest where
      fk: "store_findFork s c ?d = (Some f, xs = [] \<or> zs = [])"
      and ac: "ancestors s c = xs @ f # rest" and ad: "ancestors s ?d = zs @ f # rest"
      and hx: "\<forall>x \<in> set xs. LocalBlockHeader.hash x \<noteq> LocalBlockHeader.hash f" and hz: "\<forall>x \<in> set zs. LocalBlockHeader.hash x \<noteq> LocalBlockHeader.hash f"
      and hr: "\<forall>x \<in> set rest. LocalBlockHeader.hash x \<noteq> LocalBlockHeader.hash f" by blast
    have ff: "findFork (chain p) c ?d = (Some f, xs = [] \<or> zs = [])"
      using fk by (simp add: ch store_chain_def)
    have itf: "iterateFrom (chain p) c f = xs @ [f]"
      using iterateFrom_fork [OF ac hx] by (simp add: ch store_chain_def)
    have itt: "iterateTo (chain p) f ?d = f # rev zs"
      using iterateTo_head [OF wf ad hz hr] by (simp add: ch store_chain_def)
    from ancestors_suffix [OF wf c ac] have af: "ancestors s f = f # rest" .
    obtain r1 p1 es1 k1 where
      u0: "(if \<not> (xs = [] \<or> zs = [])
           then remove_loop signal old f (iterateFrom (chain p) c f) p es 0
           else (None, p, es, 0)) = (r1, p1, es1, k1)"
      by (metis prod_cases4)
    obtain r2 p2 es2 k2 where
      w0: "add_loop signal old f (iterateTo (chain p) f ?d) p1 es1 k1 = (r2, p2, es2, k2)"
      by (metis prod_cases4)
    from u0 have
      u: "(if \<not> (xs = [] \<or> zs = [])
           then remove_loop signal old f (xs @ [f]) p es 0 else (None, p, es, 0)) =
          (r1, p1, es1, k1)"
      unfolding itf .
    from w0 have
      w: "add_loop signal old f (f # rev zs) p1 es1 k1 = (r2, p2, es2, k2)"
      unfolding itt .
    from rec nh hd gh ff u0 w0
    have res: "(r, p', es') =
      (case r1 of Some b \<Rightarrow> (Inr b, p1, es1)
       | None \<Rightarrow> (case r2 of Some b \<Rightarrow> (Inr b, p2, es2)
                  | None \<Rightarrow> (Inr (hashChanged old p2), p2, es2)))"
      by (auto simp add: reconcile_def split: option.splits)
    have first: "(never_aborted signal \<longrightarrow> r1 = None) \<and>
         ((p1 = p \<and> es1 = es \<and> (r1 = None \<longrightarrow> xs = [] \<or> zs = [])) \<or>
          (\<exists>c1 new. c1 \<in> set (blocks s) \<and> es1 = es @ new \<and>
             replay new (ancestors s c) = Some (ancestors s c1) \<and>
             hash p1 = Some (LocalBlockHeader.hash c1) \<and> sequence p1 = Some (LocalBlockHeader.sequence c1) \<and>
             (r1 = None \<longrightarrow> c1 = f)))"
    proof (cases "xs = [] \<or> zs = []")
      case True
      with u show ?thesis by auto
    next
      case False
      with u have "remove_loop signal old f (xs @ [f]) p es 0 = (r1, p1, es1, k1)" by simp
      from unwind_effect [OF wf c ac hx this] show ?thesis by blast
    qed
    note second = rewind_effect [OF wf d ad hz w]
    show ?thesis
    proof (cases r1)
      case (Some b)
      with res have r: "r = Inr b" "p' = p1" "es' = es1" by simp_all
      from first Some have "\<not> never_aborted signal" by auto
      with r first show ?thesis by auto
    next
      case None
      with res have r: "\<exists>b. r = Inr b" "p' = p2" "es' = es2"
        by (simp_all split: option.splits)
      from first None consider
        (stay) "p1 = p" "es1 = es" "xs = [] \<or> zs = []"
        | (unwound) new1 where "es1 = es @ new1"
            "replay new1 (ancestors s c) = Some (ancestors s f)" "hash p1 = Some (LocalBlockHeader.hash f)"
            "sequence p1 = Some (LocalBlockHeader.sequence f)" "f \<in> set (blocks s)"
        by auto
      then have mid: "((p2 = p \<and> es2 = es) \<or>
         (\<exists>c' new. c' \<in> set (blocks s) \<and> es2 = es @ new \<and>
            replay new (ancestors s c) = Some (ancestors s c') \<and>
            hash p2 = Some (LocalBlockHeader.hash c') \<and> sequence p2 = Some (LocalBlockHeader.sequence c'))) \<and>
         (r2 = None \<longrightarrow> zs \<noteq> [] \<longrightarrow> hash p2 = Some (LocalBlockHeader.hash ?d) \<and> sequence p2 = Some (LocalBlockHeader.sequence ?d))"
      proof cases
        case stay
        from second consider
          (none) "p2 = p1" "es2 = es1" "r2 = None \<longrightarrow> zs = []"
          | (added) c2 new2 where "c2 \<in> set (blocks s)" "es2 = es1 @ new2"
             "replay new2 (ancestors s f) = Some (ancestors s c2)"
             "hash p2 = Some (LocalBlockHeader.hash c2)" "sequence p2 = Some (LocalBlockHeader.sequence c2)" "r2 = None \<longrightarrow> c2 = ?d"
             "zs \<noteq> []"
          by auto
        then show ?thesis
        proof cases
          case none
          with stay show ?thesis by simp
        next
          case added
          with stay have "xs = []" by simp
          with ac af have "ancestors s c = ancestors s f" by simp
          with added stay show ?thesis by auto
        qed
      next
        case unwound
        from second consider
          (none) "p2 = p1" "es2 = es1" "r2 = None \<longrightarrow> zs = []"
          | (added) c2 new2 where "c2 \<in> set (blocks s)" "es2 = es1 @ new2"
             "replay new2 (ancestors s f) = Some (ancestors s c2)"
             "hash p2 = Some (LocalBlockHeader.hash c2)" "sequence p2 = Some (LocalBlockHeader.sequence c2)" "r2 = None \<longrightarrow> c2 = ?d"
             "zs \<noteq> []"
          by auto
        then show ?thesis
        proof cases
          case none
          with unwound show ?thesis by auto
        next
          case added
          from unwound(2) added(3)
          have "replay (new1 @ new2) (ancestors s c) = Some (ancestors s c2)"
            by (simp add: replay_append)
          moreover from unwound(1) added(2) have "es2 = es @ (new1 @ new2)" by simp
          ultimately show ?thesis using added by blast
        qed
      qed
      have third: "never_aborted signal \<longrightarrow> ?d \<notin> set (tl (ancestors s c)) \<longrightarrow>
         hash p2 = Some (LocalBlockHeader.hash ?d) \<and> sequence p2 = Some (LocalBlockHeader.sequence ?d)"
      proof (intro impI)
        assume na: "never_aborted signal" and nd: "?d \<notin> set (tl (ancestors s c))"
        from second na have r2: "r2 = None" by simp
        have "zs \<noteq> []"
        proof
          assume z: "zs = []"
          with ad ancestors_hd [OF wf d] have df: "?d = f" by auto
          with nd ac have "xs = []" by (cases xs) auto
          with ac ancestors_hd [OF wf c] have "c = f" by auto
          with df nh show False by simp
        qed
        with mid r2 show "hash p2 = Some (LocalBlockHeader.hash ?d) \<and> sequence p2 = Some (LocalBlockHeader.sequence ?d)" by simp
      qed
      from r mid third show ?thesis by simp
    qed
  qed
  from all show "\<exists>b. r = Inr b" by simp
  from all show "(p' = p \<and> es' = es) \<or>
         (\<exists>c' new. c' \<in> set (blocks s) \<and> es' = es @ new \<and>
            replay new (ancestors s c) = Some (ancestors s c') \<and>
            hash p' = Some (LocalBlockHeader.hash c') \<and> sequence p' = Some (LocalBlockHeader.sequence c'))" by simp
  assume "never_aborted signal" "store_head s \<notin> set (tl (ancestors s c))"
  with all show "(c = store_head s \<and> p' = p) \<or>
         (hash p' = Some (LocalBlockHeader.hash (store_head s)) \<and> sequence p' = Some (LocalBlockHeader.sequence (store_head s)))" by simp
qed




subsection \<open>Scenario 4: a reorganisation of depth 3\<close>

lemma walk_back_numeral:
  "walk_back (numeral n) s b =
     b # (case store_getHeader s (previousBlockHash b) of
            None \<Rightarrow> []
          | Some parent \<Rightarrow> walk_back (pred_numeral n) s parent)"
  by (simp add: numeral_eq_Suc)

lemma walk_back_1: "walk_back (Suc 0) s b = [b]"
  by (simp split: option.splits)

text \<open>
  C1. The store holds \<open>G, A1, A2, A3\<close> and \<open>G, B1, B2, B3, B4\<close> with distinct hashes, its
  head is \<open>B4\<close> and the cursor of the processor is at \<open>A3\<close>. One call that is not
  cancelled returns \<^verbatim>\<open>{ hashChanged: true }\<close>, leaves the cursor at \<open>B4\<close> with sequence 5
  and emits exactly \<^verbatim>\<open>Remove(A3), Remove(A2), Remove(A1), Add(B1), Add(B2), Add(B3),
  Add(B4)\<close> in this order: every \<^verbatim>\<open>Remove\<close> before every \<^verbatim>\<open>Add\<close>, and no event for the
  fork header \<open>G\<close>.
\<close>

theorem reorg_depth_3:
  assumes d: "distinct [g, a1, a2, a3, b1, b2, b3, b4]"
    and c: "chain p = store_chain (reorg_store z g a1 a2 a3 b1 b2 b3 b4)"
    and h: "hash p = Some a3"
    and n: "never_aborted signal"
  shows "update p signal =
           (Inr True,
            p\<lparr>hash := Some b4, sequence := Some 5\<rparr>,
            [Remove (header a3 a2 4), Remove (header a2 a1 3), Remove (header a1 g 2),
             Add (header b1 g 2), Add (header b2 b1 3), Add (header b3 b2 4),
             Add (header b4 b3 5)])"
proof -
  from d have ne:
    "g \<noteq> a1" "g \<noteq> a2" "g \<noteq> a3" "g \<noteq> b1" "g \<noteq> b2" "g \<noteq> b3" "g \<noteq> b4"
    "a1 \<noteq> a2" "a1 \<noteq> a3" "a1 \<noteq> b1" "a1 \<noteq> b2" "a1 \<noteq> b3" "a1 \<noteq> b4"
    "a2 \<noteq> a3" "a2 \<noteq> b1" "a2 \<noteq> b2" "a2 \<noteq> b3" "a2 \<noteq> b4"
    "a3 \<noteq> b1" "a3 \<noteq> b2" "a3 \<noteq> b3" "a3 \<noteq> b4"
    "b1 \<noteq> b2" "b1 \<noteq> b3" "b1 \<noteq> b4" "b2 \<noteq> b3" "b2 \<noteq> b4" "b3 \<noteq> b4"
    by simp_all
  note ne' = ne ne [symmetric]
  from n have "\<forall>k. \<not> aborted signal k" by (simp add: never_aborted_def)
  then show ?thesis
  by (simp add: ne'   update_def h c reconcile_def Let_def store_chain_def reorg_store_def
      store_getHeader_def store_findFork_def store_iterateFrom_def store_iterateTo_def
      canonical_def ancestors_def header_def hashChanged_def walk_back_numeral walk_back_1 del: walk_back.simps)
qed

theorem reorg_depth_3_witness:
  "distinct [[1], [2], [3], [4], [5], [6], [7], [8 :: 8 word]] \<and>
   never_aborted None \<and>
   update (new_processor (reorg_store [0] [1] [2] [3] [4] [5] [6] [7] [8]) (Some [4])) None =
     (Inr True,
      (new_processor (reorg_store [0] [1] [2] [3] [4] [5] [6] [7] [8]) (Some [4]))
        \<lparr>hash := Some [8], sequence := Some 5\<rparr>,
      [Remove hA3, Remove hA2, Remove hA1, Add hB1, Add hB2, Add hB3, Add hB4])"
proof -
  let ?p = "new_processor (reorg_store [0] [1] [2] [3] [4] [5] [6] [7] [8]) (Some [4])"
  have d: "distinct [[1], [2], [3], [4], [5], [6], [7], [8 :: 8 word]]" by simp
  have c: "chain ?p = store_chain (reorg_store [0] [1] [2] [3] [4] [5] [6] [7] [8])"
    by (simp add: new_processor_def ChainProcessor_new_def)
  have h: "hash ?p = Some [4]" by (simp add: new_processor_def ChainProcessor_new_def)
  have n: "never_aborted None" by (simp add: never_aborted_def)
  from reorg_depth_3 [OF d c h n] d n show ?thesis
    by (simp add: hA1_def hA2_def hA3_def hB1_def hB2_def hB3_def hB4_def)
qed

subsection \<open>The cursor after a completed pass\<close>

text \<open>
  C2, as amended. Over a well-formed store, a call that is not cancelled and is entered
  with a cursor that is unseeded, or that names a header of the store of which the head
  is not a proper ancestor, returns normally with the cursor hash equal to the hash of
  the head that was read at the start of the pass. The cursor sequence is the sequence of
  that head too, unless the cursor hash was the hash of the head already at entry (the
  call then returns at line 66 and assigns nothing).
\<close>

theorem completed_pass_reaches_head:
  assumes wf: "wf_store s" and ch: "chain p = store_chain s"
    and na: "never_aborted signal"
    and cur: "hash p = None \<or>
              (\<exists>c \<in> set (blocks s). hash p = Some (LocalBlockHeader.hash c) \<and>
                 store_head s \<notin> set (tl (ancestors s c)))"
  shows "(\<exists>b. outcome (update p signal) = Inr b) \<and>
         hash (processor (update p signal)) = Some (LocalBlockHeader.hash (store_head s)) \<and>
         (hash p \<noteq> Some (LocalBlockHeader.hash (store_head s)) \<longrightarrow>
            sequence (processor (update p signal)) = Some (LocalBlockHeader.sequence (store_head s)))"
proof (cases "hash p")
  case None
  let ?g = "store_genesis s"
  let ?p = "p\<lparr>hash := Some (LocalBlockHeader.hash ?g), sequence := Some (LocalBlockHeader.sequence ?g)\<rparr>"
  from wf have g: "?g \<in> set (blocks s)" by (simp add: wf_store_def)
  have gg: "genesis (chain p) = ?g" by (simp add: ch store_chain_def)
  obtain r p' es' where rec: "reconcile signal None (LocalBlockHeader.hash ?g) ?p [Add ?g] = (r, p', es')"
    by (metis prod_cases3)
  have ch': "chain ?p = store_chain s" by (simp add: ch)
  from None gg rec have u: "update p signal = (r, p', es')" by (simp add: update_def)
  have "store_head s \<notin> set (tl (ancestors s ?g))" by (simp add: ancestors_genesis [OF wf])
  from reconcile_store(3) [OF wf ch' g rec na this] reconcile_store(1) [OF wf ch' g rec] u
  show ?thesis by (auto simp: outcome_def processor_def)
next
  case (Some h)
  with cur obtain c where c: "c \<in> set (blocks s)" "h = LocalBlockHeader.hash c"
    "store_head s \<notin> set (tl (ancestors s c))" by auto
  obtain r p' es' where rec: "reconcile signal (Some h) (LocalBlockHeader.hash c) p [] = (r, p', es')"
    by (metis prod_cases3)
  from Some c(2) rec have u: "update p signal = (r, p', es')" by (simp add: update_def)
  from reconcile_store(3) [OF wf ch c(1) rec na c(3)] reconcile_store(1) [OF wf ch c(1) rec] u
    Some c(2)
  show ?thesis by (auto simp: outcome_def processor_def)
qed

theorem completed_pass_reaches_head_witness:
  "wf_store (reorg_store [0] [1] [2] [3] [4] [5] [6] [7] [8]) \<and>
   never_aborted None \<and>
   hA3 \<in> set (blocks (reorg_store [0] [1] [2] [3] [4] [5] [6] [7] [8])) \<and>
   hB4 \<notin> set (tl (ancestors (reorg_store [0] [1] [2] [3] [4] [5] [6] [7] [8]) hA3)) \<and>
   outcome (update (new_processor (reorg_store [0] [1] [2] [3] [4] [5] [6] [7] [8]) (Some [4])) None)
     = Inr True \<and>
   hash (processor
     (update (new_processor (reorg_store [0] [1] [2] [3] [4] [5] [6] [7] [8]) (Some [4])) None))
     = Some [8] \<and>
   sequence (processor
     (update (new_processor (reorg_store [0] [1] [2] [3] [4] [5] [6] [7] [8]) (Some [4])) None))
     = Some 5"
proof -
  let ?s = "reorg_store [0] [1] [2] [3] [4] [5] [6] [7] [8]"
  let ?p = "new_processor ?s (Some [4])"
  have wf: "wf_store ?s" by code_simp
  have na: "never_aborted None" by (simp add: never_aborted_def)
  have ch: "chain ?p = store_chain ?s" by (simp add: new_processor_def ChainProcessor_new_def)
  have a: "hA3 \<in> set (blocks ?s)" by code_simp
  have b: "hash ?p = Some (LocalBlockHeader.hash hA3)"
    by (simp add: new_processor_def ChainProcessor_new_def hA3_def header_def)
  have hd: "store_head ?s = hB4" by (simp add: reorg_store_def hB4_def)
  have c: "store_head ?s \<notin> set (tl (ancestors ?s hA3))" by code_simp
  have cur: "hash ?p = None \<or>
      (\<exists>c \<in> set (blocks ?s). hash ?p = Some (LocalBlockHeader.hash c) \<and>
         store_head ?s \<notin> set (tl (ancestors ?s c)))"
    using a b c by blast
  have o: "outcome (update ?p None) = Inr True" by code_simp
  from completed_pass_reaches_head [OF wf ch na cur] wf na a c o hd show ?thesis
    by (simp add: hB4_def header_def new_processor_def ChainProcessor_new_def)
qed

text \<open>
  C2 as stated fails in two ways. With the head moved back to \<open>A1\<close> and the cursor at
  \<open>A3\<close>, \<^verbatim>\<open>findFork\<close> reports a linear relation, nothing is unwound and the call returns
  with the cursor still at \<open>A3\<close>. With the cursor seeded by the constructor at the head, the
  call returns at line 66 and the sequence is still \<^verbatim>\<open>null\<close>.
\<close>

theorem completed_pass_counterexample:
  "outcome (update (new_processor rolled_back_store (Some [4])) None) = Inr False \<and>
   hash (processor (update (new_processor rolled_back_store (Some [4])) None)) = Some [4] \<and>
   LocalBlockHeader.hash (head (chain (new_processor rolled_back_store (Some [4])))) = [2] \<and>
   outcome (update (new_processor cold_store (Some [1])) None) = Inr False \<and>
   sequence (processor (update (new_processor cold_store (Some [1])) None)) = None \<and>
   LocalBlockHeader.sequence (head (chain (new_processor cold_store (Some [1])))) = 1"
  by code_simp

subsection \<open>The balanced edit script\<close>




end
